theory Spec2Isabelle
  imports Main "HOL-Library.Char_ord" "HOL-Library.List_Lexorder" "HOL-Library.Word"
begin

section \<open>Errors\<close>

text \<open>
  The functions of \<^verbatim>\<open>cpp_linter/common_fs.py\<close> are embedded as HOL functions. Every Python
  exception that a modelled statement can raise is a value of \<open>error\<close>, and a function that
  can raise returns \<open>error + 'a\<close> with \<open>Inl\<close> for the exception. Log output
  (\<^verbatim>\<open>logger.debug\<close>) does not influence any returned value and is left out.
\<close>

datatype error = IndexError | ValueError | OSError

section \<open>Range consolidator: \<^verbatim>\<open>FileObj._consolidate_list_to_ranges\<close>\<close>

text \<open>
  \<^verbatim>\<open>result[-1].append(v)\<close>: appends \<open>v\<close> to the last inner list of \<open>result\<close>; on an empty
  \<open>result\<close> the subscript \<^verbatim>\<open>result[-1]\<close> raises IndexError.
\<close>

definition append_to_last :: "int list list \<Rightarrow> int \<Rightarrow> error + int list list" where
  "append_to_last result v =
     (case result of
        [] \<Rightarrow> Inl IndexError
      | _ # _ \<Rightarrow> Inr (butlast result @ [last result @ [v]]))"

text \<open>
  One iteration of \<^verbatim>\<open>for i, n in enumerate(numbers)\<close>. The read \<^verbatim>\<open>numbers[i - 1]\<close> happens
  only in the \<^verbatim>\<open>elif\<close> branch, where \<open>0 < i < len(numbers)\<close>, so it is in range.
\<close>

definition consolidate_body ::
    "int list \<Rightarrow> nat \<Rightarrow> int \<Rightarrow> int list list \<Rightarrow> error + int list list" where
  "consolidate_body numbers i n result =
     (case (if i = 0 then Inr (result @ [[n]])
            else if n - 1 \<noteq> numbers ! (i - 1) then
              (case append_to_last result (numbers ! (i - 1) + 1) of
                 Inl e \<Rightarrow> Inl e
               | Inr result' \<Rightarrow> Inr (result' @ [[n]]))
            else Inr result) of
        Inl e \<Rightarrow> Inl e
      | Inr result' \<Rightarrow>
          if int i = int (length numbers) - 1 then append_to_last result' (n + 1)
          else Inr result')"

fun consolidate_loop ::
    "int list \<Rightarrow> (nat \<times> int) list \<Rightarrow> int list list \<Rightarrow> error + int list list" where
  "consolidate_loop numbers [] result = Inr result"
| "consolidate_loop numbers ((i, n) # rest) result =
     (case consolidate_body numbers i n result of
        Inl e \<Rightarrow> Inl e
      | Inr result' \<Rightarrow> consolidate_loop numbers rest result')"

definition consolidate_list_to_ranges :: "int list \<Rightarrow> error + int list list" where
  "consolidate_list_to_ranges numbers = consolidate_loop numbers (enumerate 0 numbers) []"

section \<open>File descriptor: \<^verbatim>\<open>FileObj\<close>\<close>

record FileObj =
  name :: string
  additions :: "int list"
  diff_chunks :: "int list list"
  lines_added :: "int list list"

text \<open>\<^verbatim>\<open>FileObj.__init__\<close>: the derived field is computed once, from \<open>additions\<close>.\<close>

definition FileObj_init :: "string \<Rightarrow> int list \<Rightarrow> int list list \<Rightarrow> error + FileObj" where
  "FileObj_init nm adds chunks =
     (case consolidate_list_to_ranges adds of
        Inl e \<Rightarrow> Inl e
      | Inr ranges \<Rightarrow>
          Inr \<lparr>name = nm, additions = adds, diff_chunks = chunks, lines_added = ranges\<rparr>)"

text \<open>
  \<^verbatim>\<open>range_of_changed_lines\<close> returns \<^verbatim>\<open>Union[List[int], List[List[int]]]\<close>, and the literal
  \<^verbatim>\<open>[]\<close> in mode 0. The returned Python value is modelled as a tree of lists over integers,
  so that the empty list is one value whatever its static type.
\<close>

datatype pyval = PInt int | PList "pyval list"

definition py_lines :: "int list \<Rightarrow> pyval" where
  "py_lines xs = PList (map PInt xs)"

definition py_ranges :: "int list list \<Rightarrow> pyval" where
  "py_ranges rs = PList (map py_lines rs)"

definition range_of_changed_lines :: "FileObj \<Rightarrow> int \<Rightarrow> bool \<Rightarrow> pyval" where
  "range_of_changed_lines self lines_changed_only get_ranges =
     (if lines_changed_only \<noteq> 0 then
        (let ranges = (if lines_changed_only = 1 then diff_chunks self else lines_added self)
         in if get_ranges then py_ranges ranges else py_lines (additions self))
      else PList [])"

section \<open>Change-relevance predicate: \<^verbatim>\<open>has_line_changes\<close>\<close>

definition has_line_changes :: "int \<Rightarrow> int list list \<Rightarrow> int list \<Rightarrow> bool" where
  "has_line_changes lines_changed_only chunks adds =
     ((lines_changed_only = 1 \<and> length chunks > 0)
      \<or> (lines_changed_only = 2 \<and> length adds > 0)
      \<or> \<not> (lines_changed_only \<noteq> 0))"

section \<open>The Python library functions that the inclusion filter calls\<close>

text \<open>
  The filter calls \<^verbatim>\<open>pathlib.PurePath\<close>, \<^verbatim>\<open>os.path.commonpath\<close>, \<^verbatim>\<open>str.replace\<close> and
  \<^verbatim>\<open>str.lstrip\<close>. They are transcribed from CPython 3.12 in its POSIX flavour
  (\<^verbatim>\<open>posixpath\<close>, \<^verbatim>\<open>PurePosixPath\<close>): separator \<^verbatim>\<open>/\<close>, no drive, no alternative separator.
  A Python \<^verbatim>\<open>str\<close> is a \<open>string\<close>; the order on characters and the lexicographic order on
  lists are those Python uses for \<^verbatim>\<open>min\<close> and \<^verbatim>\<open>max\<close> of lists of strings.
\<close>

text \<open>\<^verbatim>\<open>s.split('/')\<close>: the pieces between separators, at least one piece.\<close>

fun split_sep :: "string \<Rightarrow> string list" where
  "split_sep [] = [[]]"
| "split_sep (c # cs) =
     (if c = CHR ''/'' then [] # split_sep cs
      else (case split_sep cs of
              [] \<Rightarrow> [[c]]
            | w # ws \<Rightarrow> (c # w) # ws))"

text \<open>\<^verbatim>\<open>'/'.join(parts)\<close>.\<close>

fun join_sep :: "string list \<Rightarrow> string" where
  "join_sep [] = []"
| "join_sep [w] = w"
| "join_sep (w # v # ws) = w @ CHR ''/'' # join_sep (v # ws)"

text \<open>\<^verbatim>\<open>s.replace("\\", "/")\<close>; the backslash is character \<open>0x5C\<close>.\<close>

definition replace_backslash :: "string \<Rightarrow> string" where
  "replace_backslash s = map (\<lambda>c. if c = CHR 0x5C then CHR ''/'' else c) s"

text \<open>\<^verbatim>\<open>s.lstrip(".")\<close>.\<close>

definition lstrip_dot :: "string \<Rightarrow> string" where
  "lstrip_dot s = dropWhile (\<lambda>c. c = CHR ''.'') s"

text \<open>\<^verbatim>\<open>s.rfind(c)\<close> for a single character or byte: the highest index of \<open>c\<close>, or \<open>-1\<close>.\<close>

fun rfind :: "'a list \<Rightarrow> 'a \<Rightarrow> int" where
  "rfind [] c = - 1"
| "rfind (x # xs) c =
     (let r = rfind xs c in if 0 \<le> r then r + 1 else if x = c then 0 else - 1)"

text \<open>
  \<^verbatim>\<open>posixpath.splitroot\<close> without the drive, which is always empty: the root is empty,
  one slash, or (for exactly two leading slashes) two slashes.
\<close>

definition splitroot :: "string \<Rightarrow> string \<times> string" where
  "splitroot p =
     (if take 1 p \<noteq> ''/'' then ([], p)
      else if take 1 (drop 1 p) \<noteq> ''/'' \<or> take 1 (drop 2 p) = ''/'' then (''/'', drop 1 p)
      else (take 2 p, drop 2 p))"

text \<open>A parsed \<^verbatim>\<open>PurePosixPath\<close>: its root and its tail of components.\<close>

record pure_path =
  root :: string
  tail :: "string list"

text \<open>\<^verbatim>\<open>PurePath._parse_path\<close>.\<close>

definition PurePath :: "string \<Rightarrow> pure_path" where
  "PurePath path =
     (if path = [] then \<lparr>root = [], tail = []\<rparr>
      else (let (rt, rel) = splitroot path
            in \<lparr>root = rt, tail = filter (\<lambda>x. x \<noteq> [] \<and> x \<noteq> ''.'') (split_sep rel)\<rparr>))"

text \<open>
  \<^verbatim>\<open>PurePath.__str__\<close> followed by \<^verbatim>\<open>as_posix\<close>, which replaces the separator \<^verbatim>\<open>/\<close> by
  itself. The branch of \<^verbatim>\<open>_format_parsed_parts\<close> that prepends \<^verbatim>\<open>'.'\<close> needs a component
  with a drive and is dead in the POSIX flavour.
\<close>

definition as_posix :: "pure_path \<Rightarrow> string" where
  "as_posix p =
     (let s = (if root p \<noteq> [] then root p @ join_sep (tail p) else join_sep (tail p))
      in if s = [] then ''.'' else s)"

text \<open>\<^verbatim>\<open>PurePath.name\<close> and \<^verbatim>\<open>PurePath.suffix\<close>.\<close>

definition path_name :: "pure_path \<Rightarrow> string" where
  "path_name p = (if tail p = [] then [] else last (tail p))"

definition suffix :: "pure_path \<Rightarrow> string" where
  "suffix p =
     (let nm = path_name p; i = rfind nm (CHR ''.'')
      in if 0 < i \<and> i < int (length nm) - 1 then drop (nat i) nm else [])"

text \<open>
  The loop of \<^verbatim>\<open>commonpath\<close> over \<^verbatim>\<open>enumerate(s1)\<close>; the read \<^verbatim>\<open>s2[i]\<close> raises IndexError
  beyond the end of \<open>s2\<close>.
\<close>

fun common_loop ::
    "string list \<Rightarrow> string list \<Rightarrow> (nat \<times> string) list \<Rightarrow> error + string list" where
  "common_loop s1 s2 [] = Inr s1"
| "common_loop s1 s2 ((i, c) # rest) =
     (if length s2 \<le> i then Inl IndexError
      else if c \<noteq> s2 ! i then Inr (take i s1)
      else common_loop s1 s2 rest)"

text \<open>
  \<^verbatim>\<open>posixpath.commonpath\<close>. An empty argument raises ValueError; so does the unpacking
  \<^verbatim>\<open>isabs, = set(p[:1] == sep for p in paths)\<close> when the set has two members, that is when
  absolute and relative paths are mixed.
\<close>

definition commonpath :: "string list \<Rightarrow> error + string" where
  "commonpath paths =
     (case paths of
        [] \<Rightarrow> Inl ValueError
      | _ # _ \<Rightarrow>
          (case remdups (map (\<lambda>p. take 1 p = ''/'') paths) of
             [isabs] \<Rightarrow>
               (case map (\<lambda>s. filter (\<lambda>c. c \<noteq> [] \<and> c \<noteq> ''.'') (split_sep s)) paths of
                  [] \<Rightarrow> Inl ValueError
                | sp # sps \<Rightarrow>
                    (let s1 = fold min sps sp; s2 = fold max sps sp
                     in case common_loop s1 s2 (enumerate 0 s1) of
                          Inl e \<Rightarrow> Inl e
                        | Inr common \<Rightarrow>
                            Inr ((if isabs then ''/'' else []) @ join_sep common)))
           | _ \<Rightarrow> Inl ValueError))"

section \<open>Inclusion filter: \<^verbatim>\<open>is_file_in_list\<close> and \<^verbatim>\<open>is_source_or_ignored\<close>\<close>

text \<open>
  The \<^verbatim>\<open>for\<close> loop returns at the first rule that matches; an exception of \<open>commonpath\<close>
  at an earlier rule leaves the function. The argument \<open>prompt\<close> is only logged.
\<close>

fun is_file_in_list :: "string list \<Rightarrow> string \<Rightarrow> string \<Rightarrow> error + bool" where
  "is_file_in_list [] file_name prompt = Inr False"
| "is_file_in_list (path # paths) file_name prompt =
     (case commonpath [as_posix (PurePath path), as_posix (PurePath file_name)] of
        Inl e \<Rightarrow> Inl e
      | Inr result \<Rightarrow>
          if replace_backslash result = path then Inr True
          else is_file_in_list paths file_name prompt)"

text \<open>
  \<^verbatim>\<open>A and (B or not C)\<close> evaluates left to right and stops as soon as the value is known:
  \<open>B\<close> is not evaluated when \<open>A\<close> is false, \<open>C\<close> is not evaluated when \<open>B\<close> is true.
\<close>

definition is_source_or_ignored ::
    "string \<Rightarrow> string list \<Rightarrow> string list \<Rightarrow> string list \<Rightarrow> error + bool" where
  "is_source_or_ignored file_name ext_list ignored not_ignored =
     (if lstrip_dot (suffix (PurePath file_name)) \<in> set ext_list then
        (case is_file_in_list not_ignored file_name ''not ignored'' of
           Inl e \<Rightarrow> Inl e
         | Inr True \<Rightarrow> Inr True
         | Inr False \<Rightarrow>
             (case is_file_in_list ignored file_name ''ignored'' of
                Inl e \<Rightarrow> Inl e
              | Inr b \<Rightarrow> Inr (\<not> b)))
      else Inr False)"

section \<open>Offset-to-position translator: \<^verbatim>\<open>get_line_cnt_from_cols\<close>\<close>

type_synonym byte = "8 word"

text \<open>
  The slice \<^verbatim>\<open>xs[:k]\<close>: a negative \<open>k\<close> counts from the end and is clipped at the start.
\<close>

definition slice_to :: "'a list \<Rightarrow> int \<Rightarrow> 'a list" where
  "slice_to xs k =
     (if 0 \<le> k then take (nat k) xs else take (nat (int (length xs) + k)) xs)"

text \<open>
  The file system is a map from paths to contents; \<^verbatim>\<open>Path(file_path).read_bytes()\<close> raises
  OSError for a path that cannot be read. The newline byte is \<open>0x0A\<close>.
\<close>

definition get_line_cnt_from_cols ::
    "(string \<rightharpoonup> byte list) \<Rightarrow> string \<Rightarrow> int \<Rightarrow> error + int \<times> int" where
  "get_line_cnt_from_cols fs file_path offset =
     (case fs file_path of
        None \<Rightarrow> Inl OSError
      | Some bytes \<Rightarrow>
          (let contents = slice_to bytes offset
           in Inr (int (count_list contents 0x0A) + 1, offset - rfind contents 0x0A)))"

section \<open>Notions used to state the properties\<close>

text \<open>The integers of a list of \<open>[start, end)\<close> ranges, range after range.\<close>

definition expand_ranges :: "int list list \<Rightarrow> int list" where
  "expand_ranges rs = concat (map (\<lambda>r. [r ! 0 .. r ! 1 - 1]) rs)"

text \<open>
  The consolidator as a recursion on the list: \<open>runs s p ns\<close> are the ranges produced when
  the open range started at \<open>s\<close>, the previous number was \<open>p\<close> and \<open>ns\<close> are still to come.
\<close>

fun runs :: "int \<Rightarrow> int \<Rightarrow> int list \<Rightarrow> int list list" where
  "runs s p [] = [[s, p + 1]]"
| "runs s p (n # ns) = (if n - 1 \<noteq> p then [s, p + 1] # runs n n ns else runs s n ns)"

text \<open>
  The segments of a path: its pieces between separators, without empty pieces and
  without \<^verbatim>\<open>.\<close> pieces. A path is absolute when it starts with the separator.
\<close>

definition segments :: "string \<Rightarrow> string list" where
  "segments p = filter (\<lambda>c. c \<noteq> [] \<and> c \<noteq> ''.'') (split_sep p)"

definition is_abs :: "string \<Rightarrow> bool" where
  "is_abs p = (take 1 p = ''/'')"

text \<open>The longest common prefix of two lists of segments, compared segment by segment.\<close>

fun common_segments :: "string list \<Rightarrow> string list \<Rightarrow> string list" where
  "common_segments (x # xs) (y # ys) = (if x = y then x # common_segments xs ys else [])"
| "common_segments _ _ = []"

text \<open>
  The longest common path prefix of a rule and a path, following the specification:
  split both on the separator, compare segment by segment, and join what is common
  (after the root \<^verbatim>\<open>/\<close> when both are absolute). An absolute and a relative path have no
  common path prefix.
\<close>

definition longest_common_path_prefix :: "string \<Rightarrow> string \<Rightarrow> string option" where
  "longest_common_path_prefix rule path =
     (if is_abs rule = is_abs path
      then Some ((if is_abs rule then ''/'' else []) @
                 join_sep (common_segments (segments rule) (segments path)))
      else None)"

text \<open>The extension that \<open>is_source_or_ignored\<close> looks up in the list of extensions.\<close>

definition extension :: "string \<Rightarrow> string" where
  "extension file_name = lstrip_dot (suffix (PurePath file_name))"

text \<open>A rule matches a path when \<open>is_file_in_list\<close> finds the rule, alone in the list.\<close>

definition rule_matches :: "string \<Rightarrow> string \<Rightarrow> bool" where
  "rule_matches rule file_name = (is_file_in_list [rule] file_name [] = Inr True)"

text \<open>The positions of newline bytes strictly before an offset.\<close>

definition newlines_before :: "byte list \<Rightarrow> int \<Rightarrow> nat set" where
  "newlines_before content offset =
     {j. int j < offset \<and> j < length content \<and> content ! j = 0x0A}"

section \<open>The range consolidator is the recursion \<open>runs\<close>\<close>

lemma append_to_last_snoc:
  "append_to_last (rs @ [r]) v = Inr (rs @ [r @ [v]])"
  by (cases rs) (simp_all add: append_to_last_def)

lemma append_to_last_single: "append_to_last [r] v = Inr [r @ [v]]"
  using append_to_last_snoc[of "[]" r v] by simp

lemma append_to_last_snoc2:
  "append_to_last (rs @ [q, r]) v = Inr (rs @ [q, r @ [v]])"
  using append_to_last_snoc[of "rs @ [q]" r v] by simp

lemmas append_to_last_simps =
  append_to_last_snoc append_to_last_single append_to_last_snoc2

lemma drop_eq_ConsD:
  assumes "drop i xs = y # ys"
  shows "i < length xs" and "xs ! i = y" and "drop (Suc i) xs = ys"
proof -
  show "i < length xs" using assms by (cases "i < length xs") auto
  then have "drop i xs = xs ! i # drop (Suc i) xs" by (simp add: Cons_nth_drop_Suc)
  with assms show "xs ! i = y" and "drop (Suc i) xs = ys" by simp_all
qed

text \<open>
  The loop invariant: from the second iteration on, \<open>result\<close> ends with the open range
  \<open>[s]\<close>, and the remaining iterations close it and append the ranges of the rest.
\<close>

lemma loop_runs:
  "drop i numbers = rest \<Longrightarrow> 0 < i \<Longrightarrow> rest \<noteq> [] \<Longrightarrow>
   consolidate_loop numbers (enumerate i rest) (closed @ [[s]])
     = Inr (closed @ runs s (numbers ! (i - 1)) rest)"
proof (induction rest arbitrary: i closed s)
  case Nil
  then show ?case by simp
next
  case (Cons n ns)
  note d = drop_eq_ConsD[OF Cons.prems(1)]
  show ?case
  proof (cases "ns = []")
    case True
    with d(3) d(1) have "Suc i = length numbers" by simp
    then have at_end: "int i = int (length numbers) - 1" by simp
    show ?thesis using True at_end
      by (simp add: consolidate_body_def append_to_last_simps Cons.prems(2))
  next
    case False
    with d(3) have "Suc i < length numbers" by (cases "Suc i < length numbers") auto
    then have not_end: "int i \<noteq> int (length numbers) - 1" by simp
    have ih: "consolidate_loop numbers (enumerate (Suc i) ns) (c' @ [[s']])
          = Inr (c' @ runs s' n ns)" for c' s'
      using Cons.IH[OF d(3) _ False, of c' s'] d(2) by simp
    show ?thesis
    proof (cases "n - 1 \<noteq> numbers ! (i - 1)")
      case True
      then show ?thesis
        using not_end Cons.prems(2) ih[of "closed @ [[s, numbers ! (i - 1) + 1]]" n]
        by (simp add: consolidate_body_def append_to_last_simps)
    next
      case False
      then show ?thesis using not_end Cons.prems(2) ih[of closed s]
        by (simp add: consolidate_body_def append_to_last_simps)
    qed
  qed
qed

lemma consolidate_Nil: "consolidate_list_to_ranges [] = Inr []"
  by (simp add: consolidate_list_to_ranges_def)

lemma consolidate_Cons: "consolidate_list_to_ranges (x # xs) = Inr (runs x x xs)"
proof (cases "xs = []")
  case True
  then show ?thesis
    by (simp add: consolidate_list_to_ranges_def consolidate_body_def append_to_last_simps)
next
  case False
  have "consolidate_loop (x # xs) (enumerate 1 xs) ([] @ [[x]])
          = Inr ([] @ runs x ((x # xs) ! (1 - 1)) xs)"
    by (rule loop_runs) (use False in simp_all)
  then show ?thesis using False
    by (simp add: consolidate_list_to_ranges_def consolidate_body_def)
qed

lemma expand_runs: "s \<le> p \<Longrightarrow> expand_ranges (runs s p ns) = [s..p] @ ns"
proof (induction ns arbitrary: s p)
  case Nil
  then show ?case by (simp add: expand_ranges_def)
next
  case (Cons n ns)
  show ?case
  proof (cases "n - 1 \<noteq> p")
    case True
    then show ?thesis using Cons.IH[of n n] by (simp add: expand_ranges_def)
  next
    case False
    then have n: "n = p + 1" by simp
    with Cons.prems have "[s..n] = [s..p] @ [n]" by (simp add: upto_rec2)
    then show ?thesis using Cons.IH[of s n] Cons.prems n by simp
  qed
qed

lemma runs_wf: "s \<le> p \<Longrightarrow> \<forall>r\<in>set (runs s p ns). length r = 2 \<and> r ! 0 < r ! 1"
proof (induction ns arbitrary: s p)
  case Nil
  then show ?case by simp
next
  case (Cons n ns)
  show ?case
  proof (cases "n - 1 \<noteq> p")
    case True
    with Cons.IH[of n n] Cons.prems show ?thesis by simp
  next
    case False
    with Cons.prems have "s \<le> n" by simp
    with Cons.IH[of s n] False show ?thesis by simp
  qed
qed

lemma runs_lower:
  "s \<le> p \<Longrightarrow> sorted_wrt (<) (p # ns) \<Longrightarrow> \<forall>r\<in>set (runs s p ns). s \<le> r ! 0"
proof (induction ns arbitrary: s p)
  case Nil
  then show ?case by simp
next
  case (Cons n ns)
  from Cons.prems have pn: "p < n" and sn: "sorted_wrt (<) (n # ns)" by auto
  show ?case
  proof (cases "n - 1 \<noteq> p")
    case True
    with Cons.IH[of n n, OF _ sn] Cons.prems(1) pn show ?thesis by fastforce
  next
    case False
    with Cons.IH[of s n, OF _ sn] Cons.prems(1) pn show ?thesis by simp
  qed
qed

lemma runs_separated:
  "s \<le> p \<Longrightarrow> sorted_wrt (<) (p # ns) \<Longrightarrow>
   sorted_wrt (\<lambda>a b. a ! 1 < b ! 0) (runs s p ns)"
proof (induction ns arbitrary: s p)
  case Nil
  then show ?case by simp
next
  case (Cons n ns)
  from Cons.prems have pn: "p < n" and sn: "sorted_wrt (<) (n # ns)" by auto
  show ?case
  proof (cases "n - 1 \<noteq> p")
    case True
    with pn have "p + 1 < n" by simp
    moreover have "\<forall>r\<in>set (runs n n ns). n \<le> r ! 0" using runs_lower[OF _ sn] by simp
    ultimately have "\<forall>r\<in>set (runs n n ns). p + 1 < r ! 0" by fastforce
    with Cons.IH[of n n, OF _ sn] True show ?thesis by simp
  next
    case False
    with Cons.IH[of s n, OF _ sn] Cons.prems(1) pn show ?thesis by simp
  qed
qed

lemma runs_nonempty: "runs s p ns \<noteq> []"
  by (induction ns arbitrary: s p) auto

lemma set_expand_ranges:
  "set (expand_ranges rs) = (\<Union>r\<in>set rs. {r ! 0 ..< r ! 1})"
proof -
  have "{a .. b - 1} = {a ..< b}" for a b :: int by auto
  then show ?thesis by (simp add: expand_ranges_def)
qed

lemma consolidate_returns:
  "\<exists>rs. consolidate_list_to_ranges numbers = Inr rs \<and> expand_ranges rs = numbers
        \<and> (numbers \<noteq> [] \<longrightarrow> rs \<noteq> [])"
proof (cases numbers)
  case Nil
  then show ?thesis by (simp add: consolidate_Nil expand_ranges_def)
next
  case (Cons x xs)
  then show ?thesis using expand_runs[of x x xs] by (simp add: consolidate_Cons runs_nonempty)
qed

text \<open>
  C1. For a strictly increasing list \<open>S\<close>, the consolidator returns ranges \<open>[start, end]\<close>
  with \<open>start < end\<close>; every range ends strictly before each later range starts, so the
  ranges are ordered, pairwise disjoint and not even adjacent; expanding them in order
  gives back \<open>S\<close>, and their union as a set of integers is the set of \<open>S\<close>. The empty list
  gives the empty list, and the four examples of the specification evaluate as stated.
\<close>

theorem consolidate_strictly_increasing:
  "(sorted_wrt (<) S \<longrightarrow>
      (\<exists>rs. consolidate_list_to_ranges S = Inr rs
         \<and> (\<forall>r\<in>set rs. length r = 2 \<and> r ! 0 < r ! 1)
         \<and> sorted_wrt (\<lambda>a b. a ! 1 < b ! 0) rs
         \<and> expand_ranges rs = S
         \<and> (\<Union>r\<in>set rs. {r ! 0 ..< r ! 1}) = set S))
   \<and> consolidate_list_to_ranges [] = Inr []
   \<and> consolidate_list_to_ranges [5] = Inr [[5, 6]]
   \<and> consolidate_list_to_ranges [3, 4, 5, 9] = Inr [[3, 6], [9, 10]]
   \<and> consolidate_list_to_ranges [1, 2, 4, 5, 6, 10] = Inr [[1, 3], [4, 7], [10, 11]]"
proof -
  have general: "\<exists>rs. consolidate_list_to_ranges S = Inr rs
         \<and> (\<forall>r\<in>set rs. length r = 2 \<and> r ! 0 < r ! 1)
         \<and> sorted_wrt (\<lambda>a b. a ! 1 < b ! 0) rs
         \<and> expand_ranges rs = S
         \<and> (\<Union>r\<in>set rs. {r ! 0 ..< r ! 1}) = set S" if inc: "sorted_wrt (<) S"
  proof (cases S)
    case Nil
    then show ?thesis by (simp add: consolidate_Nil expand_ranges_def)
  next
    case (Cons x xs)
    have e: "expand_ranges (runs x x xs) = S" using expand_runs[of x x xs] Cons by simp
    have u: "(\<Union>r\<in>set (runs x x xs). {r ! 0 ..< r ! 1}) = set S"
      using set_expand_ranges[of "runs x x xs"] e by simp
    have w: "\<forall>r\<in>set (runs x x xs). length r = 2 \<and> r ! 0 < r ! 1"
      by (rule runs_wf) simp
    have o: "sorted_wrt (\<lambda>a b. a ! 1 < b ! 0) (runs x x xs)"
      by (rule runs_separated) (use inc Cons in simp_all)
    show ?thesis using e u w o Cons by (simp add: consolidate_Cons)
  qed
  have ex: "consolidate_list_to_ranges [] = Inr []"
    "consolidate_list_to_ranges [5] = Inr [[5, 6]]"
    "consolidate_list_to_ranges [3, 4, 5, 9] = Inr [[3, 6], [9, 10]]"
    "consolidate_list_to_ranges [1, 2, 4, 5, 6, 10] = Inr [[1, 3], [4, 7], [10, 11]]"
    by (simp_all add: consolidate_Nil consolidate_Cons)
  from general ex show ?thesis by blast
qed

theorem consolidate_strictly_increasing_witness:
  "sorted_wrt (<) [1, 2, 4, 5, 6, 10 :: int]
   \<and> (\<exists>rs. consolidate_list_to_ranges [1, 2, 4, 5, 6, 10] = Inr rs
         \<and> (\<forall>r\<in>set rs. length r = 2 \<and> r ! 0 < r ! 1)
         \<and> sorted_wrt (\<lambda>a b. a ! 1 < b ! 0) rs
         \<and> expand_ranges rs = [1, 2, 4, 5, 6, 10]
         \<and> (\<Union>r\<in>set rs. {r ! 0 ..< r ! 1}) = {1, 2, 4, 5, 6, 10})"
proof -
  have h: "sorted_wrt (<) [1, 2, 4, 5, 6, 10 :: int]" by simp
  have s: "set [1, 2, 4, 5, 6, 10 :: int] = {1, 2, 4, 5, 6, 10}" by simp
  from consolidate_strictly_increasing[of "[1, 2, 4, 5, 6, 10]"] h
  have "\<exists>rs. consolidate_list_to_ranges [1, 2, 4, 5, 6, 10] = Inr rs
         \<and> (\<forall>r\<in>set rs. length r = 2 \<and> r ! 0 < r ! 1)
         \<and> sorted_wrt (\<lambda>a b. a ! 1 < b ! 0) rs
         \<and> expand_ranges rs = [1, 2, 4, 5, 6, 10]
         \<and> (\<Union>r\<in>set rs. {r ! 0 ..< r ! 1}) = set [1, 2, 4, 5, 6, 10]"
    by blast
  with h show ?thesis unfolding s by blast
qed

text \<open>
  C7. The consolidator contains no assertion: there is no list, increasing or not, on
  which it raises. The claim that some non-increasing input makes it fail is refuted.
\<close>

theorem consolidate_assertion_counterexample:
  "\<not> (\<exists>numbers e. \<not> sorted_wrt (<) numbers \<and> consolidate_list_to_ranges numbers = Inl e)"
proof
  assume "\<exists>numbers e. \<not> sorted_wrt (<) numbers \<and> consolidate_list_to_ranges numbers = Inl e"
  then obtain numbers e where "consolidate_list_to_ranges numbers = Inl e" by blast
  with consolidate_returns[of numbers] show False by auto
qed

text \<open>
  C7, as amended. On every list that is not strictly increasing the consolidator returns
  normally: a non-empty list of ranges whose expansion, range after range, is the input
  list in its given order. On \<open>[3, 2, 2]\<close> it returns the ranges \<open>[3,4], [2,3], [2,3]\<close>.
\<close>

theorem consolidate_malformed_returns:
  "(\<not> sorted_wrt (<) numbers \<longrightarrow>
      (\<exists>rs. consolidate_list_to_ranges numbers = Inr rs \<and> rs \<noteq> []
            \<and> expand_ranges rs = numbers))
   \<and> consolidate_list_to_ranges [3, 2, 2] = Inr [[3, 4], [2, 3], [2, 3]]"
proof -
  have "\<exists>rs. consolidate_list_to_ranges numbers = Inr rs \<and> rs \<noteq> []
            \<and> expand_ranges rs = numbers" if "\<not> sorted_wrt (<) numbers"
  proof -
    from that have "numbers \<noteq> []" by auto
    with consolidate_returns[of numbers] show ?thesis by blast
  qed
  moreover have "consolidate_list_to_ranges [3, 2, 2] = Inr [[3, 4], [2, 3], [2, 3]]"
    by (simp add: consolidate_Cons)
  ultimately show ?thesis by blast
qed

theorem consolidate_malformed_returns_witness:
  "\<not> sorted_wrt (<) [3, 2, 2 :: int]
   \<and> (\<exists>rs. consolidate_list_to_ranges [3, 2, 2] = Inr rs \<and> rs \<noteq> []
            \<and> expand_ranges rs = [3, 2, 2])"
proof -
  have h: "\<not> sorted_wrt (<) [3, 2, 2 :: int]" by simp
  with consolidate_malformed_returns[of "[3, 2, 2]"] show ?thesis by blast
qed

text \<open>
  C9. The consolidator is total: on every list of integers, increasing or not and with
  or without duplicates, it returns a list of ranges and raises nothing. The ranges of
  a malformed input may overlap: \<open>[1, 1]\<close> gives \<open>[1,2], [1,2]\<close>, and \<open>[2, 1]\<close> gives
  \<open>[2,3], [1,2]\<close>, out of order.
\<close>

theorem consolidate_total:
  "(\<exists>rs. consolidate_list_to_ranges numbers = Inr rs)
   \<and> consolidate_list_to_ranges [1, 1] = Inr [[1, 2], [1, 2]]
   \<and> consolidate_list_to_ranges [2, 1] = Inr [[2, 3], [1, 2]]"
proof -
  have "\<exists>rs. consolidate_list_to_ranges numbers = Inr rs"
    using consolidate_returns[of numbers] by blast
  moreover have "consolidate_list_to_ranges [1, 1] = Inr [[1, 2], [1, 2]]"
    and "consolidate_list_to_ranges [2, 1] = Inr [[2, 3], [1, 2]]"
    by (simp_all add: consolidate_Cons)
  ultimately show ?thesis by blast
qed

section \<open>Change-relevance predicate and file descriptor queries\<close>

text \<open>
  C2. For every mode, and so for each of 0, 1 and 2: \<open>has_line_changes\<close> is true in mode 0
  whatever the arguments, true in mode 1 exactly when \<open>diff_chunks\<close> is non-empty, true
  in mode 2 exactly when \<open>additions\<close> is non-empty, and false otherwise; the two examples
  of the specification are false.
\<close>

theorem has_line_changes_modes:
  "has_line_changes mode chunks adds
     = (mode = 0 \<or> (mode = 1 \<and> chunks \<noteq> []) \<or> (mode = 2 \<and> adds \<noteq> []))
   \<and> has_line_changes 0 chunks adds = True
   \<and> has_line_changes 1 chunks adds = (chunks \<noteq> [])
   \<and> has_line_changes 2 chunks adds = (adds \<noteq> [])
   \<and> has_line_changes 1 [] [1] = False
   \<and> has_line_changes 2 [[1, 5]] [] = False"
  by (auto simp add: has_line_changes_def)

theorem has_line_changes_modes_witness:
  "has_line_changes 1 [[1, 5]] [] = True
   \<and> has_line_changes 2 [[1, 5]] [] = False
   \<and> has_line_changes 0 [] [] = True"
  using has_line_changes_modes[of 1 "[[1, 5]]" "[]"] has_line_changes_modes[of 0 "[]" "[]"]
  by simp

text \<open>
  C6. For every \<open>FileObj\<close>: mode 0 gives the empty list whatever \<open>get_ranges\<close> is; mode 1
  with \<open>get_ranges\<close> gives \<open>diff_chunks\<close>; mode 2 with \<open>get_ranges\<close> gives \<open>lines_added\<close>;
  mode 2 without \<open>get_ranges\<close> gives the raw \<open>additions\<close>. The constructor always succeeds
  and sets \<open>lines_added\<close> to the consolidated ranges of \<open>additions\<close>.
\<close>

theorem range_of_changed_lines_modes:
  "range_of_changed_lines self 0 get_ranges = PList []
   \<and> range_of_changed_lines self 1 True = py_ranges (diff_chunks self)
   \<and> range_of_changed_lines self 2 True = py_ranges (lines_added self)
   \<and> range_of_changed_lines self 2 False = py_lines (additions self)
   \<and> (\<exists>f. FileObj_init nm adds chunks = Inr f
          \<and> consolidate_list_to_ranges adds = Inr (lines_added f)
          \<and> additions f = adds \<and> diff_chunks f = chunks
          \<and> range_of_changed_lines f 2 True = py_ranges (lines_added f))"
proof -
  obtain rs where rs: "consolidate_list_to_ranges adds = Inr rs"
    using consolidate_returns[of adds] by blast
  have "\<exists>f. FileObj_init nm adds chunks = Inr f
          \<and> consolidate_list_to_ranges adds = Inr (lines_added f)
          \<and> additions f = adds \<and> diff_chunks f = chunks
          \<and> range_of_changed_lines f 2 True = py_ranges (lines_added f)"
    by (simp add: FileObj_init_def rs range_of_changed_lines_def)
  then show ?thesis by (simp add: range_of_changed_lines_def)
qed

theorem range_of_changed_lines_modes_witness:
  "range_of_changed_lines
     \<lparr>name = ''a.cpp'', additions = [3, 4, 9], diff_chunks = [[1, 12]],
      lines_added = [[3, 5], [9, 10]]\<rparr> 2 True
   = PList [PList [PInt 3, PInt 5], PList [PInt 9, PInt 10]]"
  using range_of_changed_lines_modes[of
      "\<lparr>name = ''a.cpp'', additions = [3, 4, 9], diff_chunks = [[1, 12]],
        lines_added = [[3, 5], [9, 10]]\<rparr>" True "''a.cpp''" "[3, 4, 9]" "[[1, 12]]"]
  by (simp add: py_ranges_def py_lines_def)

text \<open>
  C10. In mode 1 without \<open>get_ranges\<close> the raw \<open>additions\<close> are returned, not the lines of
  the diff hunks: the query for discrete lines gives the same answer in modes 1 and 2.
\<close>

theorem range_of_changed_lines_mode1_lines:
  "range_of_changed_lines self 1 False = py_lines (additions self)
   \<and> range_of_changed_lines self 1 False = range_of_changed_lines self 2 False
   \<and> range_of_changed_lines
        \<lparr>name = ''a.cpp'', additions = [3], diff_chunks = [[1, 12]], lines_added = [[3, 4]]\<rparr>
        1 False = PList [PInt 3]"
  by (simp add: range_of_changed_lines_def py_lines_def)

section \<open>Offset-to-position translator\<close>

lemma rfind_bounds: "- 1 \<le> rfind xs c \<and> rfind xs c < int (length xs)"
  by (induction xs) (auto simp add: Let_def)

lemma rfind_hit: "0 \<le> rfind xs c \<Longrightarrow> xs ! nat (rfind xs c) = c"
proof (induction xs)
  case Nil
  then show ?case by simp
next
  case (Cons x xs)
  show ?case
  proof (cases "0 \<le> rfind xs c")
    case True
    then have "nat (rfind xs c + 1) = Suc (nat (rfind xs c))" by simp
    with True Cons.IH show ?thesis by (simp add: Let_def)
  next
    case False
    with Cons.prems show ?thesis by (auto simp add: Let_def split: if_splits)
  qed
qed

lemma rfind_highest: "j < length xs \<Longrightarrow> xs ! j = c \<Longrightarrow> int j \<le> rfind xs c"
proof (induction xs arbitrary: j)
  case Nil
  then show ?case by simp
next
  case (Cons x xs)
  show ?case
  proof (cases j)
    case 0
    with Cons.prems rfind_bounds[of xs c] show ?thesis by (auto simp add: Let_def)
  next
    case (Suc k)
    with Cons.prems have "int k \<le> rfind xs c" using Cons.IH[of k] by simp
    with Suc show ?thesis by (simp add: Let_def)
  qed
qed

lemma rfind_Max:
  "rfind xs c = Max (insert (- 1) (int ` {j. j < length xs \<and> xs ! j = c}))"
proof (rule sym, rule Max_eqI)
  show "finite (insert (- 1) (int ` {j. j < length xs \<and> xs ! j = c}))" by simp
next
  fix y assume "y \<in> insert (- 1) (int ` {j. j < length xs \<and> xs ! j = c})"
  then show "y \<le> rfind xs c" using rfind_bounds[of xs c] rfind_highest[of _ xs c] by auto
next
  show "rfind xs c \<in> insert (- 1) (int ` {j. j < length xs \<and> xs ! j = c})"
  proof (cases "0 \<le> rfind xs c")
    case True
    with rfind_hit[of xs c] rfind_bounds[of xs c]
    have "nat (rfind xs c) \<in> {j. j < length xs \<and> xs ! j = c}" by auto
    then have "int (nat (rfind xs c)) \<in> int ` {j. j < length xs \<and> xs ! j = c}"
      by (rule imageI)
    with True show ?thesis by simp
  next
    case False
    with rfind_bounds[of xs c] have "rfind xs c = - 1" by linarith
    then show ?thesis by simp
  qed
qed

lemma count_list_card: "count_list xs c = card {j. j < length xs \<and> xs ! j = c}"
proof -
  have "count_list xs c = length (filter ((=) c) xs)"
    by (rule count_list_eq_length_filter)
  also have "\<dots> = card {j. j < length xs \<and> c = xs ! j}"
    by (rule length_filter_conv_card)
  also have "{j. j < length xs \<and> c = xs ! j} = {j. j < length xs \<and> xs ! j = c}" by auto
  finally show ?thesis .
qed

lemma newlines_before_take:
  "0 \<le> offset \<Longrightarrow>
   {j. j < length (take (nat offset) content) \<and> take (nat offset) content ! j = 0x0A}
     = newlines_before content offset"
  by (auto simp add: newlines_before_def)

text \<open>
  C5. For a readable file and an offset that is not negative, the result is the pair
  \<open>(line, column)\<close> where \<open>line\<close> is one more than the number of newline bytes strictly
  before the offset, and \<open>column\<close> is the offset minus the greatest index of a newline
  byte before the offset, taken as \<open>-1\<close> when there is none (so that the column is
  \<open>offset + 1\<close> on the first line). Both are at least 1. The content \<^verbatim>\<open>ab\ncd\<close> at offset
  4 gives \<open>(2, 2)\<close> and the content \<^verbatim>\<open>hello\<close> at offset 0 gives \<open>(1, 1)\<close>.
\<close>

theorem get_line_cnt_from_cols_position:
  "(fs file_path = Some content \<and> 0 \<le> offset \<longrightarrow>
      (\<exists>line col. get_line_cnt_from_cols fs file_path offset = Inr (line, col)
         \<and> line = int (card (newlines_before content offset)) + 1
         \<and> col = offset - Max (insert (- 1) (int ` newlines_before content offset))
         \<and> (newlines_before content offset = {} \<longrightarrow> col = offset + 1)
         \<and> 1 \<le> line \<and> 1 \<le> col))
   \<and> get_line_cnt_from_cols [''f'' \<mapsto> [0x61, 0x62, 0x0A, 0x63, 0x64]] ''f'' 4 = Inr (2, 2)
   \<and> get_line_cnt_from_cols [''f'' \<mapsto> [0x68, 0x65, 0x6C, 0x6C, 0x6F]] ''f'' 0 = Inr (1, 1)"
proof -
  have general: "\<exists>line col. get_line_cnt_from_cols fs file_path offset = Inr (line, col)
         \<and> line = int (card (newlines_before content offset)) + 1
         \<and> col = offset - Max (insert (- 1) (int ` newlines_before content offset))
         \<and> (newlines_before content offset = {} \<longrightarrow> col = offset + 1)
         \<and> 1 \<le> line \<and> 1 \<le> col"
    if rd: "fs file_path = Some content" and nn: "0 \<le> offset"
  proof -
    let ?c = "take (nat offset) content"
    have res: "get_line_cnt_from_cols fs file_path offset
                 = Inr (int (count_list ?c 0x0A) + 1, offset - rfind ?c 0x0A)"
      using rd nn by (simp add: get_line_cnt_from_cols_def slice_to_def Let_def)
    have cnt: "count_list ?c 0x0A = card (newlines_before content offset)"
      using count_list_card[of ?c "0x0A"] newlines_before_take[OF nn, of content] by simp
    have rf: "rfind ?c 0x0A = Max (insert (- 1) (int ` newlines_before content offset))"
      using rfind_Max[of ?c "0x0A"] newlines_before_take[OF nn, of content] by simp
    have "rfind ?c 0x0A < int (length ?c)" using rfind_bounds[of ?c "0x0A"] by simp
    also have "\<dots> \<le> offset" using nn by simp
    finally have col1: "1 \<le> offset - rfind ?c 0x0A" by simp
    have first: "offset - rfind ?c 0x0A = offset + 1" if "newlines_before content offset = {}"
      using rf that by simp
    show ?thesis using res cnt rf col1 first by simp
  qed
  have ex1: "get_line_cnt_from_cols [''f'' \<mapsto> [0x61, 0x62, 0x0A, 0x63, 0x64]] ''f'' 4
               = Inr (2, 2)"
    by (simp add: get_line_cnt_from_cols_def slice_to_def Let_def)
  have ex2: "get_line_cnt_from_cols [''f'' \<mapsto> [0x68, 0x65, 0x6C, 0x6C, 0x6F]] ''f'' 0
               = Inr (1, 1)"
    by (simp add: get_line_cnt_from_cols_def slice_to_def Let_def)
  from general ex1 ex2 show ?thesis by blast
qed

theorem get_line_cnt_from_cols_position_witness:
  "[''f'' \<mapsto> [0x61, 0x62, 0x0A, 0x63, 0x64 :: byte]] ''f'' = Some [0x61, 0x62, 0x0A, 0x63, 0x64]
   \<and> (0 :: int) \<le> 4
   \<and> (\<exists>line col.
         get_line_cnt_from_cols [''f'' \<mapsto> [0x61, 0x62, 0x0A, 0x63, 0x64]] ''f'' 4 = Inr (line, col)
         \<and> line = int (card (newlines_before [0x61, 0x62, 0x0A, 0x63, 0x64] 4)) + 1
         \<and> col = 4 - Max (insert (- 1) (int ` newlines_before [0x61, 0x62, 0x0A, 0x63, 0x64] 4))
         \<and> 1 \<le> line \<and> 1 \<le> col)"
proof -
  have h: "[''f'' \<mapsto> [0x61, 0x62, 0x0A, 0x63, 0x64 :: byte]] ''f''
             = Some [0x61, 0x62, 0x0A, 0x63, 0x64]" by simp
  have n: "(0 :: int) \<le> 4" by simp
  from get_line_cnt_from_cols_position[of
      "[''f'' \<mapsto> [0x61, 0x62, 0x0A, 0x63, 0x64]]" "''f''" "[0x61, 0x62, 0x0A, 0x63, 0x64]" 4] h n
  show ?thesis by blast
qed

section \<open>Paths: splitting, joining and normalising\<close>
lemma split_sep_nonempty: "split_sep s \<noteq> []"
  by (induction s) (auto split: list.splits)

lemma split_sep_append:
  "split_sep (a @ CHR ''/'' # b) = split_sep a @ split_sep b"
proof (induction a)
  case Nil
  then show ?case by simp
next
  case (Cons c a)
  then show ?case using split_sep_nonempty[of a] by (cases "split_sep a") auto
qed

lemma split_sep_no_sep: "CHR ''/'' \<notin> set w \<Longrightarrow> split_sep w = [w]"
  by (induction w) auto

lemma join_sep_Cons: "ws \<noteq> [] \<Longrightarrow> join_sep (w # ws) = w @ CHR ''/'' # join_sep ws"
  by (cases ws) simp_all

lemma split_join:
  "ws \<noteq> [] \<Longrightarrow> \<forall>w\<in>set ws. CHR ''/'' \<notin> set w \<Longrightarrow> split_sep (join_sep ws) = ws"
proof (induction ws)
  case Nil
  then show ?case by simp
next
  case (Cons w ws)
  show ?case
  proof (cases "ws = []")
    case True
    with Cons.prems show ?thesis by (simp add: split_sep_no_sep)
  next
    case False
    with Cons show ?thesis
      by (simp add: join_sep_Cons split_sep_append split_sep_no_sep)
  qed
qed

lemma split_sep_pieces: "w \<in> set (split_sep s) \<Longrightarrow> CHR ''/'' \<notin> set w \<and> set w \<subseteq> set s"
proof (induction s arbitrary: w)
  case Nil
  then show ?case by simp
next
  case (Cons c s)
  show ?case
  proof (cases "c = CHR ''/''")
    case True
    with Cons show ?thesis by auto
  next
    case False
    obtain v vs where sp: "split_sep s = v # vs"
      using split_sep_nonempty[of s] by (cases "split_sep s") auto
    with Cons.prems False have "w = c # v \<or> w \<in> set vs" by simp
    then show ?thesis
    proof
      assume "w = c # v"
      moreover have "CHR ''/'' \<notin> set v \<and> set v \<subseteq> set s" using Cons.IH[of v] sp by simp
      ultimately show ?thesis using False by auto
    next
      assume "w \<in> set vs"
      then have "CHR ''/'' \<notin> set w \<and> set w \<subseteq> set s" using Cons.IH[of w] sp by simp
      then show ?thesis by auto
    qed
  qed
qed

lemma segments_pieces:
  "w \<in> set (segments s) \<Longrightarrow> w \<noteq> [] \<and> w \<noteq> ''.'' \<and> CHR ''/'' \<notin> set w \<and> set w \<subseteq> set s"
  using split_sep_pieces[of w s] by (auto simp add: segments_def)

lemma segments_slash: "segments (CHR ''/'' # s) = segments s"
  by (simp add: segments_def)

lemma segments_join:
  assumes "\<forall>w\<in>set ws. w \<noteq> [] \<and> w \<noteq> ''.'' \<and> CHR ''/'' \<notin> set w"
  shows "segments (join_sep ws) = ws"
proof (cases "ws = []")
  case True
  then show ?thesis by (simp add: segments_def)
next
  case False
  with assms have "split_sep (join_sep ws) = ws" by (simp add: split_join)
  moreover have "filter (\<lambda>c. c \<noteq> [] \<and> c \<noteq> ''.'') ws = ws" using assms by (simp add: filter_id_conv)
  ultimately show ?thesis by (simp add: segments_def)
qed

lemma join_sep_empty:
  "\<forall>w\<in>set ws. w \<noteq> [] \<Longrightarrow> (join_sep ws = []) = (ws = [])"
  by (induction ws rule: join_sep.induct) auto

lemma join_sep_hd:
  "ws \<noteq> [] \<Longrightarrow> \<forall>w\<in>set ws. w \<noteq> [] \<and> CHR ''/'' \<notin> set w \<Longrightarrow> take 1 (join_sep ws) \<noteq> ''/''"
proof (induction ws rule: join_sep.induct)
  case 1
  then show ?case by simp
next
  case (2 w)
  then show ?case by (cases w) auto
next
  case (3 w v ws)
  then show ?case by (cases w) auto
qed

lemma set_join_sep: "set (join_sep ws) \<subseteq> insert (CHR ''/'') (\<Union> (set ` set ws))"
  by (induction ws rule: join_sep.induct) auto

lemma splitroot_cases:
  obtains (rel) "take 1 p \<noteq> ''/''" "splitroot p = ([], p)"
  | (one) r where "p = CHR ''/'' # r" "splitroot p = (''/'', r)"
  | (two) r where "p = CHR ''/'' # CHR ''/'' # r" "splitroot p = (''//'', r)"
proof (cases p)
  case Nil
  then show ?thesis using rel by (simp add: splitroot_def)
next
  case (Cons c r)
  show ?thesis
  proof (cases "c = CHR ''/''")
    case False
    with Cons show ?thesis using rel by (simp add: splitroot_def)
  next
    case True
    show ?thesis
    proof (cases "take 1 r \<noteq> ''/'' \<or> take 1 (drop 1 r) = ''/''")
      case True
      with Cons \<open>c = CHR ''/''\<close> show ?thesis using one[of r] by (simp add: splitroot_def)
    next
      case False
      then obtain r' where "r = CHR ''/'' # r'" by (cases r) auto
      with False Cons \<open>c = CHR ''/''\<close> show ?thesis using two[of r']
        by (simp add: splitroot_def)
    qed
  qed
qed

lemma as_posix_segments: "segments (as_posix (PurePath p)) = segments p"
proof (cases "p = []")
  case True
  then show ?thesis by (simp add: PurePath_def as_posix_def segments_def)
next
  case False
  have t: "segments (join_sep (segments r)) = segments r" for r
    by (rule segments_join) (use segments_pieces in blast)
  have ne: "(join_sep (segments r) = []) = (segments r = [])" for r
    by (rule join_sep_empty) (use segments_pieces in blast)
  show ?thesis
  proof (cases p rule: splitroot_cases)
    case rel
    show ?thesis
    proof (cases "segments p = []")
      case True
      with False rel show ?thesis
        by (simp add: PurePath_def as_posix_def segments_def[symmetric] Let_def)
          (simp add: segments_def)
    next
      case nonempty: False
      with False rel show ?thesis using t[of p] ne[of p]
        by (simp add: PurePath_def as_posix_def segments_def[symmetric] Let_def)
    qed
  next
    case (one r)
    with False show ?thesis using t[of r]
      by (simp add: PurePath_def as_posix_def segments_def[symmetric] Let_def segments_slash)
  next
    case (two r)
    with False show ?thesis using t[of r]
      by (simp add: PurePath_def as_posix_def segments_def[symmetric] Let_def segments_slash)
  qed
qed

lemma as_posix_is_abs: "is_abs (as_posix (PurePath p)) = is_abs p"
proof (cases "p = []")
  case True
  then show ?thesis by (simp add: PurePath_def as_posix_def is_abs_def)
next
  case False
  have ne: "(join_sep (segments r) = []) = (segments r = [])" for r
    by (rule join_sep_empty) (use segments_pieces in blast)
  show ?thesis
  proof (cases p rule: splitroot_cases)
    case rel
    show ?thesis
    proof (cases "segments p = []")
      case True
      with False rel show ?thesis
        by (simp add: PurePath_def as_posix_def segments_def[symmetric] Let_def is_abs_def)
    next
      case nonempty: False
      have "take 1 (join_sep (segments p)) \<noteq> ''/''"
        by (rule join_sep_hd[OF nonempty]) (use segments_pieces in blast)
      with False rel nonempty show ?thesis using ne[of p]
        by (simp add: PurePath_def as_posix_def segments_def[symmetric] Let_def is_abs_def)
    qed
  next
    case (one r)
    with False show ?thesis
      by (simp add: PurePath_def as_posix_def segments_def[symmetric] Let_def is_abs_def)
  next
    case (two r)
    with False show ?thesis
      by (simp add: PurePath_def as_posix_def segments_def[symmetric] Let_def is_abs_def)
  qed
qed


lemma common_segments_sym: "common_segments xs ys = common_segments ys xs"
  by (induction xs ys rule: common_segments.induct) auto

lemma common_segments_subset: "set (common_segments xs ys) \<subseteq> set xs"
  by (induction xs ys rule: common_segments.induct) auto

lemma common_loop_prefix:
  "xs \<le> ys \<Longrightarrow>
   common_loop (pre @ xs) (pre @ ys) (enumerate (length pre) xs)
     = Inr (pre @ common_segments xs ys)"
proof (induction xs arbitrary: pre ys)
  case Nil
  then show ?case by simp
next
  case (Cons x xs)
  then obtain y ys' where ys: "ys = y # ys'" by (cases ys) auto
  show ?case
  proof (cases "x = y")
    case True
    with Cons.prems ys have "xs \<le> ys'" by simp
    from Cons.IH[OF this, of "pre @ [x]"] True ys show ?thesis by simp
  next
    case False
    with ys show ?thesis by simp
  qed
qed

lemma common_loop_min_max:
  "common_loop (min a b) (max a b) (enumerate 0 (min a b)) = Inr (common_segments a b)"
proof (cases "a \<le> b")
  case True
  then show ?thesis using common_loop_prefix[of a b "[]"] by (simp add: min_def max_def)
next
  case False
  then have "b \<le> a" by simp
  then show ?thesis using False common_loop_prefix[of b a "[]"] common_segments_sym[of a b]
    by (simp add: min_def max_def)
qed

lemma is_abs_Suc: "(take (Suc 0) p = ''/'') = is_abs p"
  by (simp add: is_abs_def)

lemma commonpath_pair:
  "commonpath [a, b] =
     (if is_abs a = is_abs b
      then Inr ((if is_abs a then ''/'' else []) @
                join_sep (common_segments (segments a) (segments b)))
      else Inl ValueError)"
proof (cases "is_abs a = is_abs b")
  case True
  have "common_loop (min (segments b) (segments a)) (max (segments b) (segments a))
          (enumerate 0 (min (segments b) (segments a)))
        = Inr (common_segments (segments a) (segments b))"
    using common_loop_min_max[of "segments b" "segments a"]
      common_segments_sym[of "segments a" "segments b"] by simp
  with True show ?thesis
    by (simp add: commonpath_def is_abs_Suc segments_def[symmetric] Let_def)
next
  case False
  then show ?thesis
    by (simp add: commonpath_def is_abs_Suc)
qed

lemma commonpath_as_posix:
  "commonpath [as_posix (PurePath rule), as_posix (PurePath file_name)] =
     (case longest_common_path_prefix rule file_name of
        None \<Rightarrow> Inl ValueError
      | Some c \<Rightarrow> Inr c)"
  by (simp add: commonpath_pair as_posix_segments as_posix_is_abs
      longest_common_path_prefix_def)

lemma replace_backslash_id: "CHR 0x5C \<notin> set s \<Longrightarrow> replace_backslash s = s"
  by (induction s) (auto simp add: replace_backslash_def)

lemma replace_backslash_free: "CHR 0x5C \<notin> set (replace_backslash s)"
  by (auto simp add: replace_backslash_def)

lemma prefix_backslash_free:
  assumes "longest_common_path_prefix rule file_name = Some c" and "CHR 0x5C \<notin> set rule"
  shows "CHR 0x5C \<notin> set c"
proof -
  let ?cs = "common_segments (segments rule) (segments file_name)"
  have "\<Union> (set ` set ?cs) \<subseteq> set rule"
    using common_segments_subset[of "segments rule" "segments file_name"]
      segments_pieces[of _ rule] by blast
  with set_join_sep[of ?cs] have "set (join_sep ?cs) \<subseteq> insert (CHR ''/'') (set rule)"
    by blast
  moreover from assms(1) have "set c \<subseteq> insert (CHR ''/'') (set (join_sep ?cs))"
    by (auto simp add: longest_common_path_prefix_def split: if_splits)
  ultimately have "set c \<subseteq> insert (CHR ''/'') (set rule)" by blast
  with assms(2) show ?thesis by auto
qed

lemma replace_eq_rule:
  assumes "longest_common_path_prefix rule file_name = Some c"
  shows "(replace_backslash c = rule) = (CHR 0x5C \<notin> set rule \<and> c = rule)"
proof
  assume eq: "replace_backslash c = rule"
  then have free: "CHR 0x5C \<notin> set rule" using replace_backslash_free[of c] by simp
  with prefix_backslash_free[OF assms] have "replace_backslash c = c"
    by (simp add: replace_backslash_id)
  with eq free show "CHR 0x5C \<notin> set rule \<and> c = rule" by simp
next
  assume "CHR 0x5C \<notin> set rule \<and> c = rule"
  then show "replace_backslash c = rule" by (simp add: replace_backslash_id)
qed

lemma is_file_in_list_Cons:
  "is_file_in_list (rule # rules) file_name prompt =
     (case longest_common_path_prefix rule file_name of
        None \<Rightarrow> Inl ValueError
      | Some c \<Rightarrow>
          if CHR 0x5C \<notin> set rule \<and> c = rule then Inr True
          else is_file_in_list rules file_name prompt)"
  using replace_eq_rule[of rule file_name]
  by (simp add: commonpath_as_posix split: option.splits)

lemma rule_matches_iff:
  "rule_matches rule file_name =
     (CHR 0x5C \<notin> set rule \<and> longest_common_path_prefix rule file_name = Some rule)"
  by (auto simp add: rule_matches_def is_file_in_list_Cons simp del: is_file_in_list.simps(2)
      split: option.splits)

lemma is_file_in_list_same_abs:
  "\<forall>r\<in>set rules. is_abs r = is_abs file_name \<Longrightarrow>
   is_file_in_list rules file_name prompt = Inr (\<exists>r\<in>set rules. rule_matches r file_name)"
proof (induction rules)
  case Nil
  then show ?case by simp
next
  case (Cons r rules)
  then have "longest_common_path_prefix r file_name \<noteq> None"
    by (simp add: longest_common_path_prefix_def)
  then obtain c where c: "longest_common_path_prefix r file_name = Some c" by blast
  from Cons have ih: "is_file_in_list rules file_name prompt
                        = Inr (\<exists>r\<in>set rules. rule_matches r file_name)" by simp
  show ?case using c ih
    by (auto simp add: is_file_in_list_Cons rule_matches_iff simp del: is_file_in_list.simps(2))
qed

section \<open>Inclusion filter\<close>

text \<open>
  Where every rule is absolute exactly when the path is, \<open>commonpath\<close> does not raise and
  the filter decides by extension and rules; an exception of the filter is always the
  ValueError of a rule and a path of which one is absolute and the other relative.
\<close>

lemma source_or_ignored_same_abs:
  assumes "\<forall>r\<in>set (not_ignored @ ignored). is_abs r = is_abs file_name"
  shows "is_source_or_ignored file_name ext_list ignored not_ignored
           = Inr (extension file_name \<in> set ext_list
                  \<and> ((\<exists>r\<in>set not_ignored. rule_matches r file_name)
                     \<or> \<not> (\<exists>r\<in>set ignored. rule_matches r file_name)))"
proof -
  have n: "is_file_in_list not_ignored file_name ''not ignored''
             = Inr (\<exists>r\<in>set not_ignored. rule_matches r file_name)"
    by (rule is_file_in_list_same_abs) (use assms in simp)
  have i: "is_file_in_list ignored file_name ''ignored''
             = Inr (\<exists>r\<in>set ignored. rule_matches r file_name)"
    by (rule is_file_in_list_same_abs) (use assms in simp)
  show ?thesis unfolding is_source_or_ignored_def extension_def[symmetric] n i
    by (simp split: bool.splits)
qed

lemma source_or_ignored_no_extension:
  "extension file_name \<notin> set ext_list \<Longrightarrow>
   is_source_or_ignored file_name ext_list ignored not_ignored = Inr False"
  by (simp add: is_source_or_ignored_def extension_def)

lemma is_file_in_list_error:
  "is_file_in_list rules file_name prompt = Inl e \<Longrightarrow>
   e = ValueError \<and> (\<exists>r\<in>set rules. is_abs r \<noteq> is_abs file_name)"
proof (induction rules)
  case Nil
  then show ?case by simp
next
  case (Cons r rules)
  show ?case
  proof (cases "longest_common_path_prefix r file_name")
    case None
    then have "is_abs r \<noteq> is_abs file_name"
      by (auto simp add: longest_common_path_prefix_def split: if_splits)
    with None Cons.prems show ?thesis
      by (simp add: is_file_in_list_Cons del: is_file_in_list.simps(2))
  next
    case (Some c)
    with Cons.prems have "is_file_in_list rules file_name prompt = Inl e"
      by (simp add: is_file_in_list_Cons del: is_file_in_list.simps(2) split: if_splits)
    with Cons.IH show ?thesis by simp
  qed
qed

lemma source_or_ignored_error:
  assumes "is_source_or_ignored file_name ext_list ignored not_ignored = Inl e"
  shows "e = ValueError \<and> (\<exists>r\<in>set (not_ignored @ ignored). is_abs r \<noteq> is_abs file_name)"
proof -
  from assms have "is_file_in_list not_ignored file_name ''not ignored'' = Inl e
      \<or> is_file_in_list ignored file_name ''ignored'' = Inl e"
    by (auto simp add: is_source_or_ignored_def split: if_splits sum.splits bool.splits)
  then show ?thesis using is_file_in_list_error by fastforce
qed

lemma source_or_ignored_examples:
  "is_source_or_ignored ''src/lib/foo.cpp'' [''cpp''] [''src/lib''] [] = Inr False"
  "is_source_or_ignored ''src/lib/foo.cpp'' [''cpp''] [''src/lib''] [''src/lib/foo.cpp'']
     = Inr True"
  "is_source_or_ignored ''libfoo.cpp'' [''cpp''] [''lib''] [] = Inr True"
  "is_source_or_ignored ''a.cpp'' [''cpp''] [] [''/x''] = Inl ValueError"
  "is_source_or_ignored ''src/main.cpp'' [''cpp''] [''/usr/include''] [] = Inl ValueError"
  "extension ''a.cpp'' = ''cpp''"
  by code_simp+

lemma file_in_list_examples:
  "is_file_in_list [''lib''] ''lib/foo.cpp'' prompt = Inr True"
  "is_file_in_list [''lib''] ''libfoo.cpp'' prompt = Inr False"
  "is_file_in_list [[CHR ''a'', CHR 0x5C, CHR ''b'']]
     [CHR ''a'', CHR 0x5C, CHR ''b'', CHR ''/'', CHR ''c''] prompt = Inr False"
  "longest_common_path_prefix [CHR ''a'', CHR 0x5C, CHR ''b'']
     [CHR ''a'', CHR 0x5C, CHR ''b'', CHR ''/'', CHR ''c''] = Some [CHR ''a'', CHR 0x5C, CHR ''b'']"
  by code_simp+

lemma file_in_list_mixed_examples:
  "is_file_in_list [''/x''] ''a.cpp'' ''not ignored'' = Inl ValueError"
  "is_file_in_list [''/usr/include''] ''src/main.cpp'' ''ignored'' = Inl ValueError"
  by code_simp+

text \<open>
  C3. The claim describes the decision the filter is written to take, and the code
  departs from it where a rule is absolute and the path relative. With the path
  \<^verbatim>\<open>a.cpp\<close>, the extensions \<^verbatim>\<open>["cpp"]\<close>, no ignored rule and the not-ignored rule \<^verbatim>\<open>/x\<close>, the
  extension is in the list and no ignored rule matches, so the claim gives true. The
  docstring of \<open>is_file_in_list\<close> knows two results, and False for a file that is not in
  the list; instead the call for the rule \<^verbatim>\<open>/x\<close> leaves with the ValueError that
  \<open>commonpath\<close> raises for an absolute and a relative path, and \<open>is_source_or_ignored\<close>
  does not return at all.
\<close>

theorem is_source_or_ignored_mixed_raises:
  "is_source_or_ignored ''a.cpp'' [''cpp''] [] [''/x''] = Inl ValueError
   \<and> is_file_in_list [''/x''] ''a.cpp'' ''not ignored'' = Inl ValueError
   \<and> extension ''a.cpp'' \<in> set [''cpp'']"
  using source_or_ignored_examples(4,6) file_in_list_mixed_examples(1) by simp

text \<open>
  C4, as stated, fails. The rule \<^verbatim>\<open>a\b\<close> and the path \<^verbatim>\<open>a\b/c\<close> have the longest common
  path prefix \<^verbatim>\<open>a\b\<close>, which is the rule itself; but \<open>is_file_in_list\<close> replaces the
  backslash of the prefix by a slash before it compares, and finds no match.
\<close>

theorem is_file_in_list_backslash_counterexample:
  "longest_common_path_prefix [CHR ''a'', CHR 0x5C, CHR ''b'']
     [CHR ''a'', CHR 0x5C, CHR ''b'', CHR ''/'', CHR ''c''] = Some [CHR ''a'', CHR 0x5C, CHR ''b'']
   \<and> is_file_in_list [[CHR ''a'', CHR 0x5C, CHR ''b'']]
        [CHR ''a'', CHR 0x5C, CHR ''b'', CHR ''/'', CHR ''c''] [] = Inr False"
  using file_in_list_examples(3)[of "[]"] file_in_list_examples(4) by blast

text \<open>
  C4, as amended. A rule matches a path exactly when the rule contains no backslash and
  the longest common path prefix, computed segment by segment, is the rule itself (a
  rule with a backslash never matches). The comparison is on whole segments: the rule
  \<^verbatim>\<open>lib\<close> matches \<^verbatim>\<open>lib/foo.cpp\<close> and not \<^verbatim>\<open>libfoo.cpp\<close>, so \<^verbatim>\<open>libfoo.cpp\<close> with
  ignored \<^verbatim>\<open>["lib"]\<close> is included.
\<close>

theorem is_file_in_list_segment_match:
  "(is_file_in_list [rule] file_name prompt = Inr True)
     = (CHR 0x5C \<notin> set rule \<and> longest_common_path_prefix rule file_name = Some rule)
   \<and> rule_matches rule file_name
     = (CHR 0x5C \<notin> set rule \<and> longest_common_path_prefix rule file_name = Some rule)
   \<and> is_file_in_list [''lib''] ''lib/foo.cpp'' prompt = Inr True
   \<and> is_file_in_list [''lib''] ''libfoo.cpp'' prompt = Inr False
   \<and> is_source_or_ignored ''libfoo.cpp'' [''cpp''] [''lib''] [] = Inr True"
proof -
  have "(is_file_in_list [rule] file_name prompt = Inr True)
     = (CHR 0x5C \<notin> set rule \<and> longest_common_path_prefix rule file_name = Some rule)"
    by (auto simp add: is_file_in_list_Cons simp del: is_file_in_list.simps(2)
        split: option.splits)
  then show ?thesis
    using rule_matches_iff[of rule file_name] file_in_list_examples(1,2)[of prompt]
      source_or_ignored_examples(3)
    by blast
qed

theorem is_file_in_list_segment_match_witness:
  "CHR 0x5C \<notin> set ''lib'' \<and> longest_common_path_prefix ''lib'' ''lib/foo.cpp'' = Some ''lib''
   \<and> is_file_in_list [''lib''] ''lib/foo.cpp'' [] = Inr True"
  using is_file_in_list_segment_match[of "''lib''" "''lib/foo.cpp''" "[]"]
  by blast

text \<open>
  C8. The claim that the filter never fails is what the docstrings promise (a file is
  in the list or it is not), and the code breaks it: with the relative path
  \<^verbatim>\<open>src/main.cpp\<close> and the absolute ignored rule \<^verbatim>\<open>/usr/include\<close>, \<open>is_file_in_list\<close> and with
  it \<open>is_source_or_ignored\<close> leave with the ValueError of \<open>commonpath\<close>. The other half
  of the claim holds: with both lists of rules empty the filter returns, and includes
  exactly the files whose extension is in the list of extensions.
\<close>

theorem is_source_or_ignored_absolute_rule_raises:
  "is_source_or_ignored ''src/main.cpp'' [''cpp''] [''/usr/include''] [] = Inl ValueError
   \<and> is_file_in_list [''/usr/include''] ''src/main.cpp'' ''ignored'' = Inl ValueError
   \<and> is_source_or_ignored file_name ext_list [] [] = Inr (extension file_name \<in> set ext_list)"
proof -
  have "is_source_or_ignored file_name ext_list [] []
          = Inr (extension file_name \<in> set ext_list)"
    by (simp add: is_source_or_ignored_def extension_def)
  then show ?thesis
    using source_or_ignored_examples(5) file_in_list_mixed_examples(2) by simp
qed

end
